theory Spec2Isabelle
  imports Main "HOL-Library.Multiset"
begin

section \<open>JavaScript values\<close>

text \<open>
  The values that reach the library: search descriptors, option values and response
  bodies are JSON-like data. Numbers are the integers (rendered in decimal, which is what
  JavaScript prints for an integer of magnitude below \<open>10^21\<close>); an object is the list
  of its own enumerable entries in the order \<open>for ... in\<close> visits them, so its keys are
  pairwise distinct and \<open>search[p]\<close> inside the loop is the value listed with \<open>p\<close>.
  There are no function values in this type: a property that holds one of these values
  is never callable.
\<close>

datatype jsval =
    JUndefined
  | JNull
  | JBool bool
  | JNum int
  | JStr string
  | JArr "jsval list"
  | JObj "(string \<times> jsval) list"

datatype error = TypeError | Error string

type_synonym obj = "(string \<times> jsval) list"

fun truthy :: "jsval \<Rightarrow> bool" where
  "truthy JUndefined = False"
| "truthy JNull = False"
| "truthy (JBool b) = b"
| "truthy (JNum n) = (n \<noteq> 0)"
| "truthy (JStr s) = (s \<noteq> [])"
| "truthy (JArr xs) = True"
| "truthy (JObj kvs) = True"

fun digits :: "nat \<Rightarrow> string" where
  "digits n =
     (if n < 10 then [''0123456789'' ! n]
      else digits (n div 10) @ [''0123456789'' ! (n mod 10)])"

declare digits.simps [simp del]

text \<open>\<open>Array.prototype.join\<close> on strings.\<close>

fun join :: "string \<Rightarrow> string list \<Rightarrow> string" where
  "join sep [] = []"
| "join sep [x] = x"
| "join sep (x # y # ys) = x @ sep @ join sep (y # ys)"

text \<open>
  The conversion to text that a template literal and \<open>Array.prototype.join\<close> apply.
  An array is joined with commas, \<open>null\<close> and \<open>undefined\<close> elements giving the empty
  string; a plain object goes through \<open>Object.prototype.toString\<close>, unless an own
  \<open>toString\<close> entry (not callable here) shadows it, which raises.
\<close>

fun ToString :: "jsval \<Rightarrow> error + string"
  and ToStrings :: "jsval list \<Rightarrow> error + string list" where
  "ToString JUndefined = Inr ''undefined''"
| "ToString JNull = Inr ''null''"
| "ToString (JBool b) = Inr (if b then ''true'' else ''false'')"
| "ToString (JNum n) = Inr (if n < 0 then ''-'' @ digits (nat (- n)) else digits (nat n))"
| "ToString (JStr s) = Inr s"
| "ToString (JArr xs) =
     (case ToStrings xs of Inl e \<Rightarrow> Inl e | Inr ss \<Rightarrow> Inr (join '','' ss))"
| "ToString (JObj kvs) =
     (if ''toString'' \<in> set (map fst kvs) then Inl TypeError else Inr ''[object Object]'')"
| "ToStrings [] = Inr []"
| "ToStrings (x # xs) =
     (case (if x = JUndefined \<or> x = JNull then Inr [] else ToString x) of
        Inl e \<Rightarrow> Inl e
      | Inr s \<Rightarrow> (case ToStrings xs of Inl e \<Rightarrow> Inl e | Inr ss \<Rightarrow> Inr (s # ss)))"

text \<open>
  The method call \<open>v.toString()\<close>: reading a property of \<open>null\<close> or \<open>undefined\<close>
  raises a TypeError, every other value converts as above.
\<close>

definition toString :: "jsval \<Rightarrow> error + string" where
  "toString v = (if v = JUndefined \<or> v = JNull then Inl TypeError else ToString v)"

section \<open>The query compiler: \<open>buildQuery\<close>\<close>

text \<open>
  Lines 47 to 58 of \<open>buildQuery\<close>: the parts and the negation are put together.
  \<open>negation\<close> is either \<open>undefined\<close> (\<open>None\<close>) or a string starting with \<open>NOT(\<close>.
\<close>

definition assemble :: "string list \<Rightarrow> string option \<Rightarrow> string \<Rightarrow> string" where
  "assemble parts negation operator =
     (if length parts = 0 then (case negation of Some n \<Rightarrow> n | None \<Rightarrow> [])
      else if length parts > 1 \<or> negation \<noteq> None then
        (case negation of Some n \<Rightarrow> n @ '' '' @ operator @ '' ('' | None \<Rightarrow> ''('')
          @ join ('') '' @ operator @ '' ('') parts @ '')''
      else parts ! 0)"

text \<open>
  \<open>for (const p in search)\<close> on a non-empty string visits its indices, and every index
  falls in the \<open>default\<close> case of the switch.
\<close>

definition string_terms :: "string \<Rightarrow> string list" where
  "string_terms s = map (\<lambda>i. digits i @ '':'' @ [s ! i]) [0..<length s]"

text \<open>
  \<open>buildQuery\<close>, one equation per kind of value of \<open>search\<close>. \<open>search || {}\<close> replaces
  a falsy value by the empty object; a number or boolean that is truthy has no enumerable
  property either, so all of these leave \<open>parts\<close> empty. \<open>operator || 'AND'\<close> replaces the
  empty string. \<open>forEach_subquery\<close> is the body of \<open>search.forEach\<close> and
  \<open>forIn_search\<close> the \<open>for ... in\<close> loop with its switch; both carry the variables
  the loops update (\<open>parts\<close>, \<open>negation\<close>), and an exception leaves them at once.
\<close>

fun buildQuery :: "jsval \<Rightarrow> string \<Rightarrow> error + string"
  and forEach_subquery :: "jsval list \<Rightarrow> string list \<Rightarrow> error + string list"
  and forIn_search ::
    "(string \<times> jsval) list \<Rightarrow> string list \<times> string option \<Rightarrow>
       error + string list \<times> string option"
where
  "buildQuery (JArr xs) operator =
     (case forEach_subquery xs [] of
        Inl e \<Rightarrow> Inl e
      | Inr parts \<Rightarrow> Inr (assemble parts None (if operator = [] then ''AND'' else operator)))"
| "buildQuery (JObj kvs) operator =
     (case forIn_search kvs ([], None) of
        Inl e \<Rightarrow> Inl e
      | Inr (parts, negation) \<Rightarrow>
          Inr (assemble parts negation (if operator = [] then ''AND'' else operator)))"
| "buildQuery (JStr s) operator =
     Inr (assemble (string_terms s) None (if operator = [] then ''AND'' else operator))"
| "buildQuery JUndefined operator =
     Inr (assemble [] None (if operator = [] then ''AND'' else operator))"
| "buildQuery JNull operator =
     Inr (assemble [] None (if operator = [] then ''AND'' else operator))"
| "buildQuery (JBool b) operator =
     Inr (assemble [] None (if operator = [] then ''AND'' else operator))"
| "buildQuery (JNum n) operator =
     Inr (assemble [] None (if operator = [] then ''AND'' else operator))"
| "forEach_subquery [] parts = Inr parts"
| "forEach_subquery (subquery # rest) parts =
     (case buildQuery subquery ''AND'' of
        Inl e \<Rightarrow> Inl e
      | Inr part \<Rightarrow> forEach_subquery rest (if part \<noteq> [] then parts @ [part] else parts))"
| "forIn_search [] st = Inr st"
| "forIn_search ((p, v) # rest) (parts, negation) =
     (if p = ''$or'' then
        (case buildQuery v ''OR'' of
           Inl e \<Rightarrow> Inl e
         | Inr subquery \<Rightarrow>
             forIn_search rest (if subquery \<noteq> [] then parts @ [subquery] else parts, negation))
      else if p = ''$and'' then
        (case buildQuery v ''AND'' of
           Inl e \<Rightarrow> Inl e
         | Inr subquery \<Rightarrow>
             forIn_search rest (if subquery \<noteq> [] then parts @ [subquery] else parts, negation))
      else if p = ''$not'' then
        (case buildQuery v ''OR'' of
           Inl e \<Rightarrow> Inl e
         | Inr subquery \<Rightarrow>
             forIn_search rest
               (parts, if subquery \<noteq> [] then Some (''NOT('' @ subquery @ '')'') else negation))
      else
        (case toString v of
           Inl e \<Rightarrow> Inl e
         | Inr t \<Rightarrow> forIn_search rest (parts @ [p @ '':'' @ t], negation)))"

section \<open>Option objects\<close>

text \<open>
  An options object is shared between the caller and the library, so it lives in a store:
  a reference is an index into the list of objects, and a new object goes to the end.
  Writing a property keeps the place of an existing key and appends a new one, which is
  the order \<open>for ... in\<close> follows (for keys that are not array indices).
\<close>

type_synonym addr = nat
type_synonym heap = "obj list"

definition hasOwn :: "obj \<Rightarrow> string \<Rightarrow> bool" where
  "hasOwn ob k = (k \<in> set (map fst ob))"

definition get :: "obj \<Rightarrow> string \<Rightarrow> jsval" where
  "get ob k = (case map_of ob k of None \<Rightarrow> JUndefined | Some v \<Rightarrow> v)"

fun set_prop :: "obj \<Rightarrow> string \<Rightarrow> jsval \<Rightarrow> obj" where
  "set_prop [] k v = [(k, v)]"
| "set_prop ((k', v') # rest) k v =
     (if k' = k then (k, v) # rest else (k', v') # set_prop rest k v)"

definition delete_prop :: "obj \<Rightarrow> string \<Rightarrow> obj" where
  "delete_prop ob k = filter (\<lambda>kv. fst kv \<noteq> k) ob"

definition fresh :: "obj \<Rightarrow> heap \<Rightarrow> addr \<times> heap" where
  "fresh ob h = (length h, h @ [ob])"

text \<open>
  What a caller passes for \<open>options\<close>: nothing, the callback (the two-argument call),
  or a reference to an object.
\<close>

datatype optarg = OptUndefined | OptFunction | OptObject addr

text \<open>
  Reading a property of a value, as in \<open>result.response\<close> and
  \<open>result.response.docs\<close>: an object gives the entry or \<open>undefined\<close>, \<open>null\<close> and
  \<open>undefined\<close> raise, and no other value has a property of these two names.
\<close>

fun get_prop :: "jsval \<Rightarrow> string \<Rightarrow> error + jsval" where
  "get_prop JUndefined k = Inl TypeError"
| "get_prop JNull k = Inl TypeError"
| "get_prop (JObj ob) k = Inr (get ob k)"
| "get_prop v k = Inr JUndefined"

section \<open>\<open>exports.query\<close>\<close>

text \<open>
  \<open>encodeURIComponent\<close> on ASCII text: letters, digits and \<open>- _ . ! ~ * ' ( )\<close> stay,
  every other character becomes \<open>%\<close> and its code in two upper-case hexadecimal digits.
\<close>

definition hex2 :: "nat \<Rightarrow> string" where
  "hex2 n = [''0123456789ABCDEF'' ! (n div 16), ''0123456789ABCDEF'' ! (n mod 16)]"

definition unreserved :: "string" where
  "unreserved =
     ''ABCDEFGHIJKLMNOPQRSTUVWXYZabcdefghijklmnopqrstuvwxyz0123456789-_.!~*'' @ [CHR 39] @ ''()''"

definition encodeURIComponent :: "string \<Rightarrow> string" where
  "encodeURIComponent s =
     concat (map (\<lambda>c. if c \<in> set unreserved then [c] else ''%'' @ hex2 (of_char c)) s)"

text \<open>The two arguments of \<open>axios.get\<close>.\<close>

record request =
  req_url :: string
  req_options :: obj

text \<open>Line 124: a string is taken as it is, anything else is compiled.\<close>

definition query_text :: "jsval \<Rightarrow> error + string" where
  "query_text search =
     (case search of
        JStr s \<Rightarrow> Inr s
      | _ \<Rightarrow> (case buildQuery search ''AND'' of
                Inl e \<Rightarrow> Inl e
              | Inr q \<Rightarrow> Inr (if q \<noteq> [] then q else ''*:*'')))"

text \<open>Lines 133 to 139: the link before the options are appended.\<close>

definition query_link :: "obj \<Rightarrow> string \<Rightarrow> error + string" where
  "query_link options query =
     (case ToString (if truthy (get options ''host'') then get options ''host''
                     else JStr ''http://api.archives-ouvertes.fr'') of
        Inl e \<Rightarrow> Inl e
      | Inr host \<Rightarrow>
          if get options ''core'' = JStr ''hal'' then
            Inr (host @ ''/solr/hal/api/selectall?wt=json&q='' @ encodeURIComponent query)
          else
            (case ToString (if truthy (get options ''core'') then get options ''core''
                            else JStr ''search'') of
               Inl e \<Rightarrow> Inl e
             | Inr core \<Rightarrow> Inr (host @ ''/'' @ core @ ''/?wt=json&q='' @ encodeURIComponent query)))"

text \<open>Lines 152 to 155: every option but \<open>core\<close> is appended to the link.\<close>

fun append_options :: "obj \<Rightarrow> string \<Rightarrow> error + string" where
  "append_options [] url = Inr url"
| "append_options ((p, v) # rest) url =
     (if p \<noteq> ''core'' then
        (case ToString v of
           Inl e \<Rightarrow> Inl e
         | Inr t \<Rightarrow> append_options rest (url @ ''&'' @ p @ ''='' @ t))
      else append_options rest url)"

text \<open>
  The synchronous part of \<open>exports.query\<close>, up to the call of \<open>axios.get\<close>: it
  returns the request that is sent, or the exception thrown, and the store as the
  statements executed so far have left it. An own \<open>hasOwnProperty\<close> entry of the
  options shadows the method, and is not callable. \<open>join_fl\<close> is lines 147 to 149.
\<close>

definition join_fl :: "addr \<Rightarrow> heap \<Rightarrow> error + heap" where
  "join_fl a h =
     (case get (h ! a) ''fl'' of
        JArr xs \<Rightarrow>
          (case ToStrings xs of
             Inl e \<Rightarrow> Inl e
           | Inr ss \<Rightarrow> Inr (h[a := set_prop (h ! a) ''fl'' (JStr (join '','' ss))]))
      | _ \<Rightarrow> Inr h)"

definition query :: "jsval \<Rightarrow> optarg \<Rightarrow> heap \<Rightarrow> (error + request) \<times> heap" where
  "query search options h0 =
     (let (a, h1) = (case options of OptObject a \<Rightarrow> (a, h0) | _ \<Rightarrow> fresh [] h0) in
      (case query_text search of
         Inl e \<Rightarrow> (Inl e, h1)
       | Inr query \<Rightarrow>
           (if hasOwn (h1 ! a) ''hasOwnProperty'' then (Inl TypeError, h1)
            else
              (let requestOptions =
                     (if hasOwn (h1 ! a) ''proxy'' then [(''proxy'', get (h1 ! a) ''proxy'')]
                      else []);
                   h2 = (if hasOwn (h1 ! a) ''proxy'' then h1[a := delete_prop (h1 ! a) ''proxy'']
                         else h1)
               in
                 (case query_link (h2 ! a) query of
                    Inl e \<Rightarrow> (Inl e, h2)
                  | Inr url \<Rightarrow>
                      (let h3 = (if truthy (get (h2 ! a) ''fields'') then
                                   h2[a := delete_prop
                                             (set_prop (h2 ! a) ''fl'' (get (h2 ! a) ''fields''))
                                             ''fields'']
                                 else h2)
                       in
                         (case join_fl a h3 of
                            Inl e \<Rightarrow> (Inl e, h3)
                          | Inr h4 \<Rightarrow>
                              (case append_options (h4 ! a) url of
                                 Inl e \<Rightarrow> (Inl e, h4)
                               | Inr url' \<Rightarrow>
                                   (Inr \<lparr>req_url = url', req_options = requestOptions\<rparr>,
                                    h4)))))))))"

text \<open>
  What the promise of \<open>axios.get\<close> settles with, and what a callback is called with:
  \<open>callback(err)\<close> or \<open>callback(null, value)\<close>. An axios response carries \<open>status\<close>
  and \<open>data\<close> and no \<open>statusCode\<close>, which therefore prints as \<open>undefined\<close>.
\<close>

record response =
  status :: int
  data :: jsval


datatype cbcall = CbErr error | CbOk jsval


section \<open>\<open>exports.find\<close> and \<open>exports.findOne\<close>\<close>

definition find :: "jsval \<Rightarrow> optarg \<Rightarrow> heap \<Rightarrow> (error + request) \<times> heap" where
  "find search options h0 =
     (case options of
        OptFunction \<Rightarrow> (let (a, h1) = fresh [] h0 in query search (OptObject a) h1)
      | _ \<Rightarrow> query search options h0)"

definition find_callback :: "cbcall \<Rightarrow> error + cbcall" where
  "find_callback c =
     (case c of
        CbErr err \<Rightarrow> Inr (CbErr err)
      | CbOk result \<Rightarrow>
          (case get_prop result ''response'' of
             Inl e \<Rightarrow> Inl e
           | Inr r \<Rightarrow>
               (case (if truthy r then get_prop r ''docs'' else Inr JUndefined) of
                  Inl e \<Rightarrow> Inl e
                | Inr (JArr docs) \<Rightarrow> Inr (CbOk (JArr docs))
                | Inr _ \<Rightarrow> Inr (CbErr (Error ''unexpected result, documents not found'')))))"

definition findOne :: "jsval \<Rightarrow> optarg \<Rightarrow> heap \<Rightarrow> (error + request) \<times> heap" where
  "findOne search options h0 =
     (let (a, h1) = (case options of OptObject a \<Rightarrow> (a, h0) | _ \<Rightarrow> fresh [] h0);
          h2 = h1[a := set_prop (h1 ! a) ''rows'' (JNum 1)]
      in query search (OptObject a) h2)"


section \<open>The cursor stream: \<open>ApiHalStream\<close>\<close>

text \<open>
  What an instance does to its surroundings, in the order it does it: a request
  (\<open>axios.get\<close> of \<open>urlBase\<close>, \<open>/?\<close> and \<open>querystring.stringify\<close> of the parameters,
  kept here as the base and the parameters at the time of the call), a document handed
  to the consumer (\<open>push(doc)\<close>), the end of the data (\<open>push(null)\<close>), an \<open>error\<close> event.
\<close>

datatype action = Get string obj | Push jsval | PushNull | EmitError error

text \<open>
  The fields of an instance, and around them the store that holds its parameters, the
  requests sent and not yet settled, and the actions so far.
\<close>

record ApiHalStream =
  reading :: bool
  counter :: int
  urlBase :: string
  params :: addr

record world = ApiHalStream +
  store :: heap
  inflight :: "(string \<times> obj) list"
  trace :: "action list"

text \<open>
  The constructor. The default parameter \<open>{q: '*'}\<close> is a new object and applies when
  no options are passed (\<open>None\<close>); otherwise the instance keeps the caller's object.
\<close>

definition ApiHalStream_new :: "addr option \<Rightarrow> heap \<Rightarrow> world" where
  "ApiHalStream_new options h0 =
     (let (a, h1) = (case options of Some a \<Rightarrow> (a, h0) | None \<Rightarrow> fresh [(''q'', JStr ''*'')] h0);
          h2 = h1[a := set_prop (h1 ! a) ''sort'' (JStr ''docid asc'')];
          h3 = h2[a := set_prop (h2 ! a) ''cursorMark'' (JStr ''*'')];
          h4 = h3[a := set_prop (h3 ! a) ''rows'' (JNum 1000)]
      in \<lparr>reading = False, counter = 0, urlBase = ''http://api.archives-ouvertes.fr/search'',
          params = a, store = h4, inflight = [], trace = []\<rparr>)"

text \<open>
  A page as the handler reads it: \<open>response.data.response.docs\<close>,
  \<open>response.data.response.numFound\<close> and \<open>response.data.nextCursorMark\<close>. A request
  that fails, or a body without \<open>response.docs\<close> (the handler then throws before it
  pushes anything), ends in the \<open>catch\<close> handler with the error. A document is never
  \<open>null\<close>, which \<open>push\<close> would take for the end of the data.
\<close>

record page =
  docs :: "jsval list"
  numFound :: int
  nextCursorMark :: jsval

datatype settled = Page page | Failed error

text \<open>\<open>getMoreUntilDone(url)\<close> up to the call of \<open>axios.get\<close>; the handlers run later.\<close>

definition getMoreUntilDone :: "string \<times> obj \<Rightarrow> world \<Rightarrow> world" where
  "getMoreUntilDone u w =
     w\<lparr>inflight := inflight w @ [u], trace := trace w @ [Get (fst u) (snd u)]\<rparr>"

definition ApiHalStream_read :: "world \<Rightarrow> world" where
  "ApiHalStream_read w =
     (if reading w then w
      else getMoreUntilDone (urlBase w, store w ! params w) (w\<lparr>reading := True\<rparr>))"

text \<open>The callback of \<open>docs.map\<close>, and the loop over the page.\<close>

definition push_doc :: "jsval \<Rightarrow> world \<Rightarrow> world" where
  "push_doc doc w = w\<lparr>counter := counter w + 1, trace := trace w @ [Push doc]\<rparr>"

fun push_docs :: "jsval list \<Rightarrow> world \<Rightarrow> world" where
  "push_docs [] w = w"
| "push_docs (doc # rest) w = push_docs rest (push_doc doc w)"

text \<open>The \<open>then\<close> handler (lines 189 to 202) and the \<open>catch\<close> handler (line 204).\<close>

definition on_fulfilled :: "page \<Rightarrow> world \<Rightarrow> world" where
  "on_fulfilled response w0 =
     (let w1 = push_docs (docs response) w0 in
      if counter w1 < numFound response then
        (let w2 = w1\<lparr>store := (store w1)[params w1 :=
                      set_prop (store w1 ! params w1) ''cursorMark'' (nextCursorMark response)]\<rparr>
         in getMoreUntilDone (urlBase w2, store w2 ! params w2) w2)
      else w1\<lparr>trace := trace w1 @ [PushNull], counter := 0, reading := False\<rparr>)"

definition on_rejected :: "error \<Rightarrow> world \<Rightarrow> world" where
  "on_rejected err w = w\<lparr>trace := trace w @ [EmitError err]\<rparr>"

text \<open>
  The events of an instance: the consumer's pull (a call of \<open>_read\<close>) and the settling
  of the oldest request in flight, which can only happen when there is one.
\<close>

datatype event = Pull | Settle settled

definition step :: "event \<Rightarrow> world \<Rightarrow> world option" where
  "step ev w =
     (case ev of
        Pull \<Rightarrow> Some (ApiHalStream_read w)
      | Settle s \<Rightarrow>
          (case inflight w of
             [] \<Rightarrow> None
           | u # rest \<Rightarrow>
               Some (case s of
                       Page response \<Rightarrow> on_fulfilled response (w\<lparr>inflight := rest\<rparr>)
                     | Failed err \<Rightarrow> on_rejected err (w\<lparr>inflight := rest\<rparr>))))"

fun run :: "event list \<Rightarrow> world \<Rightarrow> world option" where
  "run [] w = Some w"
| "run (ev # evs) w = (case step ev w of None \<Rightarrow> None | Some w' \<Rightarrow> run evs w')"

text \<open>The requests and the documents in a list of actions.\<close>

fun gets :: "action list \<Rightarrow> (string \<times> obj) list" where
  "gets [] = []"
| "gets (Get b ps # as) = (b, ps) # gets as"
| "gets (_ # as) = gets as"

fun pushed :: "action list \<Rightarrow> jsval list" where
  "pushed [] = []"
| "pushed (Push d # as) = d # pushed as"
| "pushed (_ # as) = pushed as"

section \<open>Notions used in the statements and proofs\<close>

text \<open>
  What a single entry of a mapping does to the variables of the \<open>for ... in\<close> loop: the
  loop run on that entry alone, the parts it appends, and its effect on \<open>negation\<close>.
\<close>

definition entry :: "string \<times> jsval \<Rightarrow> error + string list \<times> string option" where
  "entry kv = forIn_search [kv] ([], None)"

definition entry_parts :: "string \<times> jsval \<Rightarrow> string list" where
  "entry_parts kv = (case entry kv of Inl e \<Rightarrow> [] | Inr (parts, negation) \<Rightarrow> parts)"

definition entry_negation :: "string \<times> jsval \<Rightarrow> string option \<Rightarrow> string option" where
  "entry_negation kv n =
     (case entry kv of Inr (parts, Some m) \<Rightarrow> Some m | _ \<Rightarrow> n)"

text \<open>
  The guard of \<open>_read\<close> as an invariant: at most one request is in flight, and none
  unless \<open>reading\<close> is set.
\<close>

definition single_flight :: "world \<Rightarrow> bool" where
  "single_flight w = (length (inflight w) \<le> 1 \<and> (reading w \<or> inflight w = []))"

text \<open>
  A run of pages none of which completes the scroll: after each of them the count,
  starting from \<open>c\<close>, is still below the \<open>numFound\<close> it reports.
\<close>

fun scrolling :: "int \<Rightarrow> page list \<Rightarrow> bool" where
  "scrolling c [] = True"
| "scrolling c (p # ps) =
     (c + int (length (docs p)) < numFound p \<and> scrolling (c + int (length (docs p))) ps)"


section \<open>The compiler on the documented examples\<close>

lemma digits_1 [simp]: "digits (Suc 0) = ''1''"
  by (simp add: digits.simps)

lemma digits_2 [simp]: "digits 2 = ''2''"
  by (simp add: digits.simps)

lemma encodeURIComponent_wildcard: "encodeURIComponent ''*:*'' = ''*%3A*''"
  by (simp add: encodeURIComponent_def unreserved_def hex2_def)

text \<open>
  C4: the empty mapping compiles to the empty string, \<open>{a: 1}\<close> to \<open>a:1\<close> (a single part
  without negation is returned as it is, without parentheses, whatever the operator),
  \<open>{a: 1, b: 2}\<close> to \<open>(a:1) AND (b:2)\<close>; and when the compiled result of a search that
  is not a string is empty, \<open>query\<close> puts the match-all term \<open>*:*\<close> in its place, so
  that the empty mapping is sent as \<open>q=*%3A*\<close>.
\<close>

theorem compile_plain_mappings:
  "buildQuery (JObj []) ''AND'' = Inr []
   \<and> buildQuery (JObj [(''a'', JNum 1)]) ''AND'' = Inr ''a:1''
   \<and> buildQuery (JObj [(''a'', JNum 1), (''b'', JNum 2)]) ''AND'' = Inr ''(a:1) AND (b:2)''
   \<and> (\<forall>part operator. assemble [part] None operator = part)
   \<and> (\<forall>search. (\<forall>s. search \<noteq> JStr s) \<longrightarrow> buildQuery search ''AND'' = Inr [] \<longrightarrow>
          query_text search = Inr ''*:*'')
   \<and> (\<forall>h. fst (query (JObj []) OptUndefined h) =
          Inr \<lparr>req_url = ''http://api.archives-ouvertes.fr/search/?wt=json&q=*%3A*'',
               req_options = []\<rparr>)"
proof (intro conjI allI impI)
  show "buildQuery (JObj []) ''AND'' = Inr []"
    by (simp add: assemble_def)
  show "buildQuery (JObj [(''a'', JNum 1)]) ''AND'' = Inr ''a:1''"
    by (simp add: assemble_def toString_def)
  show "buildQuery (JObj [(''a'', JNum 1), (''b'', JNum 2)]) ''AND'' = Inr ''(a:1) AND (b:2)''"
    by (simp add: assemble_def toString_def)
  show "assemble [part] None operator = part" for part operator
    by (simp add: assemble_def)
  show "query_text search = Inr ''*:*''"
    if "\<forall>s. search \<noteq> JStr s" and "buildQuery search ''AND'' = Inr []" for search
    using that by (cases search) (simp_all add: query_text_def)
  show "fst (query (JObj []) OptUndefined h) =
          Inr \<lparr>req_url = ''http://api.archives-ouvertes.fr/search/?wt=json&q=*%3A*'',
               req_options = []\<rparr>" for h
    by (simp add: query_def fresh_def query_text_def assemble_def hasOwn_def query_link_def
        get_def join_fl_def encodeURIComponent_wildcard)
qed

theorem compile_plain_mappings_witness:
  "(\<forall>s. JObj [] \<noteq> JStr s) \<and> buildQuery (JObj []) ''AND'' = Inr []
   \<and> query_text (JObj []) = Inr ''*:*''"
  using compile_plain_mappings by simp

text \<open>
  C5: \<open>{"$or": [{a: 1}, {b: 2}]}\<close> compiles to \<open>(a:1) OR (b:2)\<close>, \<open>{"$not": {a: 1}}\<close> to
  \<open>NOT(a:1)\<close>, and \<open>{"$not": {a: 1}, b: 2}\<close> to \<open>NOT(a:1) AND (b:2)\<close>: the negation is
  kept apart from the parts and written before them.
\<close>

theorem compile_or_and_not:
  "buildQuery (JObj [(''$or'', JArr [JObj [(''a'', JNum 1)], JObj [(''b'', JNum 2)]])]) ''AND''
     = Inr ''(a:1) OR (b:2)''
   \<and> buildQuery (JObj [(''$not'', JObj [(''a'', JNum 1)])]) ''AND'' = Inr ''NOT(a:1)''
   \<and> buildQuery (JObj [(''$not'', JObj [(''a'', JNum 1)]), (''b'', JNum 2)]) ''AND''
     = Inr ''NOT(a:1) AND (b:2)''"
  by (simp add: assemble_def toString_def)

section \<open>Values that cannot be rendered\<close>

lemma ToString_error:
  "ToString v = Inl e \<Longrightarrow> e = TypeError"
  "ToStrings xs = Inl e \<Longrightarrow> e = TypeError"
  by (induction v and xs arbitrary: e and e rule: ToString_ToStrings.induct)
     (auto split: sum.splits if_splits)

lemma toString_error: "toString v = Inl e \<Longrightarrow> e = TypeError"
  by (auto simp: toString_def split: if_splits dest: ToString_error)

lemma buildQuery_error:
  "buildQuery v operator = Inl e \<Longrightarrow> e = TypeError"
  "forEach_subquery xs parts = Inl e \<Longrightarrow> e = TypeError"
  "forIn_search kvs st = Inl e \<Longrightarrow> e = TypeError"
  by (induction v operator and xs parts and kvs st arbitrary: e and e and e
        rule: buildQuery_forEach_subquery_forIn_search.induct)
     (auto split: sum.splits if_splits dest: toString_error)





section \<open>The order of the keys\<close>

lemma forIn_search_Cons:
  "forIn_search (kv # rest) (parts, negation) =
     (case entry kv of
        Inl e \<Rightarrow> Inl e
      | Inr r \<Rightarrow> forIn_search rest (parts @ entry_parts kv, entry_negation kv negation))"
  by (cases kv)
     (auto simp: entry_def entry_parts_def entry_negation_def split: sum.splits)

lemma forIn_search_fails:
  "\<exists>kv \<in> set kvs. isl (entry kv) \<Longrightarrow> forIn_search kvs st = Inl TypeError"
proof (induction kvs arbitrary: st)
  case Nil
  then show ?case by simp
next
  case (Cons kv kvs)
  obtain parts negation where st: "st = (parts, negation)" by (cases st)
  show ?case
  proof (cases "entry kv")
    case (Inl e)
    then have "e = TypeError"
      unfolding entry_def by (rule buildQuery_error(3))
    with Inl show ?thesis
      by (simp add: st forIn_search_Cons)
  next
    case (Inr r)
    with Cons.prems have "\<exists>kv \<in> set kvs. isl (entry kv)"
      by auto
    then show ?thesis
      by (simp add: st forIn_search_Cons Inr Cons.IH)
  qed
qed

lemma forIn_search_succeeds:
  "\<forall>kv \<in> set kvs. \<not> isl (entry kv) \<Longrightarrow>
     forIn_search kvs (parts, negation) =
       Inr (parts @ concat (map entry_parts kvs), fold entry_negation kvs negation)"
proof (induction kvs arbitrary: parts negation)
  case Nil
  then show ?case by simp
next
  case (Cons kv kvs)
  then obtain r where r: "entry kv = Inr r"
    by (cases "entry kv") auto
  from Cons.prems have "\<forall>kv \<in> set kvs. \<not> isl (entry kv)"
    by simp
  then show ?case
    by (simp add: forIn_search_Cons r Cons.IH)
qed

lemma entry_negation_other:
  "fst kv \<noteq> ''$not'' \<Longrightarrow> entry_negation kv n = n"
  by (cases kv)
     (auto simp: entry_negation_def entry_def split: sum.splits option.splits)

lemma fold_entry_negation_other:
  "''$not'' \<notin> fst ` set kvs \<Longrightarrow> fold entry_negation kvs n = n"
proof (induction kvs arbitrary: n)
  case Nil
  then show ?case by simp
next
  case (Cons kv kvs)
  then have "fst kv \<noteq> ''$not''" and "''$not'' \<notin> fst ` set kvs"
    by auto
  then show ?case
    by (simp add: entry_negation_other Cons.IH)
qed

lemma fold_entry_negation_distinct:
  "distinct (map fst kvs) \<Longrightarrow>
     fold entry_negation kvs n =
       (case map_of kvs ''$not'' of None \<Rightarrow> n | Some v \<Rightarrow> entry_negation (''$not'', v) n)"
proof (induction kvs arbitrary: n)
  case Nil
  then show ?case by simp
next
  case (Cons kv kvs)
  obtain p v where kv: "kv = (p, v)" by (cases kv)
  show ?case
  proof (cases "p = ''$not''")
    case True
    with Cons.prems kv have "''$not'' \<notin> fst ` set kvs" by auto
    then show ?thesis
      by (simp add: kv True fold_entry_negation_other)
  next
    case False
    with Cons show ?thesis
      by (simp add: kv entry_negation_other)
  qed
qed

lemma mset_concat_map:
  "mset xs = mset ys \<Longrightarrow> mset (concat (map f xs)) = mset (concat (map f ys))"
proof -
  assume "mset xs = mset ys"
  then have "image_mset (\<lambda>x. mset (f x)) (mset xs) = image_mset (\<lambda>x. mset (f x)) (mset ys)"
    by simp
  moreover have "mset (concat (map f zs)) = \<Sum>\<^sub># (image_mset (\<lambda>x. mset (f x)) (mset zs))" for zs
    by (induction zs) simp_all
  ultimately show ?thesis by simp
qed

text \<open>
  C9: listing the entries of a mapping (whose keys are pairwise distinct, as an object's
  are) in another order changes neither whether the compiler throws, nor the negation,
  nor the parts as a multiset; only the order of the parts, and so of the terms in the
  output, can differ.
\<close>

theorem reorder_keys:
  assumes perm: "mset kvs' = mset kvs" and dist: "distinct (map fst kvs)"
  shows "(\<exists>e. forIn_search kvs ([], None) = Inl e \<and> forIn_search kvs' ([], None) = Inl e
            \<and> buildQuery (JObj kvs) operator = Inl e \<and> buildQuery (JObj kvs') operator = Inl e)
       \<or> (\<exists>parts parts' negation.
            forIn_search kvs ([], None) = Inr (parts, negation)
            \<and> forIn_search kvs' ([], None) = Inr (parts', negation)
            \<and> mset parts' = mset parts
            \<and> buildQuery (JObj kvs) operator =
                Inr (assemble parts negation (if operator = [] then ''AND'' else operator))
            \<and> buildQuery (JObj kvs') operator =
                Inr (assemble parts' negation (if operator = [] then ''AND'' else operator)))"
proof (cases "\<exists>kv \<in> set kvs. isl (entry kv)")
  case True
  moreover from perm have "set kvs' = set kvs"
    by (rule mset_eq_setD)
  ultimately have "forIn_search kvs ([], None) = Inl TypeError"
    and "forIn_search kvs' ([], None) = Inl TypeError"
    by (simp_all add: forIn_search_fails)
  then show ?thesis by simp
next
  case False
  from perm have sets: "set kvs' = set kvs"
    by (rule mset_eq_setD)
  from perm have "mset (map fst kvs') = mset (map fst kvs)"
    by simp
  with dist have dist': "distinct (map fst kvs')"
    by (metis mset_eq_imp_distinct_iff)
  have maps: "map_of kvs' = map_of kvs"
    using dist dist' sets by (simp add: map_of_inject_set)
  have a: "forIn_search kvs ([], None) =
      Inr (concat (map entry_parts kvs), fold entry_negation kvs None)"
    using False by (simp add: forIn_search_succeeds)
  have b: "forIn_search kvs' ([], None) =
      Inr (concat (map entry_parts kvs'), fold entry_negation kvs' None)"
    using False sets by (simp add: forIn_search_succeeds)
  have n: "fold entry_negation kvs' None = fold entry_negation kvs None"
    by (simp add: fold_entry_negation_distinct dist dist' maps)
  have m: "mset (concat (map entry_parts kvs')) = mset (concat (map entry_parts kvs))"
    using perm by (rule mset_concat_map)
  show ?thesis
    using a b n m by simp
qed

theorem reorder_keys_witness:
  "mset [(''b'', JNum 2), (''$not'', JObj [(''a'', JNum 1)])]
     = mset [(''$not'', JObj [(''a'', JNum 1)]), (''b'', JNum 2)]
   \<and> distinct (map fst [(''$not'', JObj [(''a'', JNum 1)]), (''b'', JNum 2)])
   \<and> buildQuery (JObj [(''$not'', JObj [(''a'', JNum 1)]), (''b'', JNum 2)]) ''AND''
       = Inr (assemble [''b:2''] (Some ''NOT(a:1)'') ''AND'')
   \<and> buildQuery (JObj [(''b'', JNum 2), (''$not'', JObj [(''a'', JNum 1)])]) ''AND''
       = Inr (assemble [''b:2''] (Some ''NOT(a:1)'') ''AND'')"
proof -
  have perm: "mset [(''b'', JNum 2), (''$not'', JObj [(''a'', JNum 1)])]
     = mset [(''$not'', JObj [(''a'', JNum 1)]), (''b'', JNum 2)]"
    by simp
  have dist: "distinct (map fst [(''$not'', JObj [(''a'', JNum 1)]), (''b'', JNum 2)])"
    by simp
  have "forIn_search [(''$not'', JObj [(''a'', JNum 1)]), (''b'', JNum 2)] ([], None)
          = Inr ([''b:2''], Some ''NOT(a:1)'')"
    by (simp add: toString_def assemble_def)
  with reorder_keys [OF perm dist, of "''AND''"] perm dist show ?thesis
    by auto
qed

section \<open>The stream: one request at a time\<close>

lemma push_docs_fields [simp]:
  "counter (push_docs ds w) = counter w + int (length ds)"
  "trace (push_docs ds w) = trace w @ map Push ds"
  "reading (push_docs ds w) = reading w"
  "urlBase (push_docs ds w) = urlBase w"
  "params (push_docs ds w) = params w"
  "store (push_docs ds w) = store w"
  "inflight (push_docs ds w) = inflight w"
  by (induction ds arbitrary: w) (simp_all add: push_doc_def)

lemma gets_append [simp]: "gets (xs @ ys) = gets xs @ gets ys"
  by (induction xs rule: gets.induct) simp_all

lemma pushed_append [simp]: "pushed (xs @ ys) = pushed xs @ pushed ys"
  by (induction xs rule: pushed.induct) simp_all

lemma gets_map_Push [simp]: "gets (map Push ds) = []"
  by (induction ds) simp_all

lemma pushed_map_Push [simp]: "pushed (map Push ds) = ds"
  by (induction ds) simp_all

lemma read_while_reading: "reading w \<Longrightarrow> ApiHalStream_read w = w"
  by (simp add: ApiHalStream_read_def)

lemma single_flight_new: "single_flight (ApiHalStream_new options h)"
  by (simp add: single_flight_def ApiHalStream_new_def Let_def split: prod.splits)

lemma single_flight_step:
  "single_flight w \<Longrightarrow> step ev w = Some w' \<Longrightarrow> single_flight w'"
  by (cases ev)
     (auto simp: single_flight_def step_def ApiHalStream_read_def getMoreUntilDone_def
        on_fulfilled_def on_rejected_def Let_def
        split: list.splits settled.splits if_splits)

lemma single_flight_run:
  "single_flight w \<Longrightarrow> run evs w = Some w' \<Longrightarrow> single_flight w'"
  by (induction evs arbitrary: w) (auto split: option.splits dest: single_flight_step)

text \<open>
  C8: in every state an instance can reach, at most one request is in flight, a request
  is in flight only while \<open>reading\<close> is set, and a pull that arrives while one is in
  flight changes nothing and sends nothing.
\<close>

theorem one_request_in_flight:
  assumes "run evs (ApiHalStream_new options h) = Some w"
  shows "length (inflight w) \<le> 1
         \<and> (inflight w = [] \<or> reading w \<and> ApiHalStream_read w = w \<and> step Pull w = Some w)"
proof -
  from single_flight_new assms have "single_flight w"
    by (rule single_flight_run)
  then show ?thesis
    by (auto simp: single_flight_def step_def read_while_reading)
qed

theorem one_request_in_flight_witness:
  "\<exists>w. run [Pull, Pull] (ApiHalStream_new None []) = Some w
     \<and> length (inflight w) = 1 \<and> reading w \<and> ApiHalStream_read w = w \<and> step Pull w = Some w"
proof -
  have "\<exists>w. run [Pull, Pull] (ApiHalStream_new None []) = Some w \<and> length (inflight w) = 1"
    by (simp add: step_def ApiHalStream_read_def ApiHalStream_new_def getMoreUntilDone_def
        fresh_def)
  then obtain w where w: "run [Pull, Pull] (ApiHalStream_new None []) = Some w"
    "length (inflight w) = 1"
    by blast
  with one_request_in_flight [OF w(1)] show ?thesis
    by auto
qed

section \<open>The stream: scrolling through the pages\<close>

lemma run_append:
  "run (evs @ evs') w = (case run evs w of None \<Rightarrow> None | Some w' \<Rightarrow> run evs' w')"
  by (induction evs arbitrary: w) (simp_all split: option.splits)

lemma step_next_page:
  assumes "inflight w = [u]" and "counter w + int (length (docs p)) < numFound p"
  shows "\<exists>w'. step (Settle (Page p)) w = Some w'
           \<and> reading w' = reading w
           \<and> counter w' = counter w + int (length (docs p))
           \<and> urlBase w' = urlBase w \<and> params w' = params w
           \<and> store w' = (store w)[params w :=
                 set_prop (store w ! params w) ''cursorMark'' (nextCursorMark p)]
           \<and> inflight w' = [(urlBase w, store w' ! params w)]
           \<and> trace w' = trace w @ map Push (docs p) @ [Get (urlBase w) (store w' ! params w)]"
  using assms by (simp add: step_def on_fulfilled_def Let_def getMoreUntilDone_def)

lemma step_last_page:
  assumes "inflight w = [u]" and "\<not> counter w + int (length (docs p)) < numFound p"
  shows "\<exists>w'. step (Settle (Page p)) w = Some w'
           \<and> \<not> reading w' \<and> counter w' = 0
           \<and> urlBase w' = urlBase w \<and> params w' = params w \<and> store w' = store w
           \<and> inflight w' = []
           \<and> trace w' = trace w @ map Push (docs p) @ [PushNull]"
  using assms by (simp add: step_def on_fulfilled_def Let_def)

lemma step_failed:
  assumes "inflight w = [u]"
  shows "step (Settle (Failed err)) w = Some (w\<lparr>inflight := [], trace := trace w @ [EmitError err]\<rparr>)"
  using assms by (simp add: step_def on_rejected_def)

lemma read_new:
  "\<exists>w. step Pull (ApiHalStream_new options h) = Some w
      \<and> reading w \<and> counter w = 0 \<and> (\<exists>u. inflight w = [u])
      \<and> pushed (trace w) = [] \<and> length (gets (trace w)) = 1"
  by (simp add: step_def ApiHalStream_read_def ApiHalStream_new_def getMoreUntilDone_def Let_def
      split: prod.splits)

lemma run_scroll:
  assumes "reading w" and "inflight w = [u]" and "scrolling (counter w) ps"
    and "filter (\<lambda>ev. ev \<noteq> Pull) evs = map (\<lambda>p. Settle (Page p)) ps"
  shows "\<exists>w'. run evs w = Some w'
           \<and> reading w'
           \<and> counter w' = counter w + int (length (concat (map docs ps)))
           \<and> (\<exists>u'. inflight w' = [u'])
           \<and> pushed (trace w') = pushed (trace w) @ concat (map docs ps)
           \<and> length (gets (trace w')) = length (gets (trace w)) + length ps"
  using assms
proof (induction evs arbitrary: w u ps)
  case Nil
  then show ?case by simp
next
  case (Cons ev evs)
  show ?case
  proof (cases ev)
    case Pull
    with Cons.prems have "step ev w = Some w"
      by (simp add: step_def read_while_reading)
    moreover from Cons.prems Pull
    have "filter (\<lambda>ev. ev \<noteq> Pull) evs = map (\<lambda>p. Settle (Page p)) ps"
      by simp
    ultimately show ?thesis
      using Cons.IH [OF Cons.prems(1) Cons.prems(2) Cons.prems(3)] by simp
  next
    case (Settle s)
    with Cons.prems(4) obtain p ps' where ps: "ps = p # ps'" and s: "s = Page p"
      and rest: "filter (\<lambda>ev. ev \<noteq> Pull) evs = map (\<lambda>p. Settle (Page p)) ps'"
      by (cases ps) auto
    from Cons.prems(3) ps have less: "counter w + int (length (docs p)) < numFound p"
      by simp
    from step_next_page [OF Cons.prems(2) less] obtain w1 where
      w1: "step (Settle (Page p)) w = Some w1"
        "reading w1 = reading w"
        "counter w1 = counter w + int (length (docs p))"
        "inflight w1 = [(urlBase w, store w1 ! params w)]"
        "trace w1 = trace w @ map Push (docs p) @ [Get (urlBase w) (store w1 ! params w)]"
      by blast
    from Cons.prems(1) w1 have r1: "reading w1"
      by simp
    from Cons.prems(3) ps w1 have s1: "scrolling (counter w1) ps'"
      by simp
    from Cons.IH [OF r1 w1(4) s1 rest] obtain w' where
      w': "run evs w1 = Some w'" "reading w'"
        "counter w' = counter w1 + int (length (concat (map docs ps')))"
        "\<exists>u'. inflight w' = [u']"
        "pushed (trace w') = pushed (trace w1) @ concat (map docs ps')"
        "length (gets (trace w')) = length (gets (trace w1)) + length ps'"
      by blast
    show ?thesis
      using w1 w' by (simp add: Settle s ps)
  qed
qed

lemma filter_settles:
  "filter (\<lambda>ev. ev \<noteq> Pull) (map (\<lambda>p. Settle (Page p)) ps) = map (\<lambda>p. Settle (Page p)) ps"
  by (induction ps) simp_all

lemma run_after_stop:
  "reading w \<Longrightarrow> inflight w = [] \<Longrightarrow> run evs w = Some w' \<Longrightarrow> w' = w"
proof (induction evs)
  case Nil
  then show ?case by simp
next
  case (Cons ev evs)
  then show ?case
    by (cases ev) (simp_all add: step_def read_while_reading)
qed

text \<open>
  C6: when the request after the pages \<open>ps\<close> fails (with any pulls of the consumer in
  between), the documents pushed are exactly those of \<open>ps\<close>, in order, the last action
  is the \<open>error\<close> event, one request was sent for each page of \<open>ps\<close> and one for the page
  that failed, the counter still holds the number of documents pushed, and whatever
  happens afterwards changes nothing: no further request is sent.
\<close>

theorem failure_mid_scroll:
  assumes "scrolling 0 ps"
    and "filter (\<lambda>ev. ev \<noteq> Pull) evs = map (\<lambda>p. Settle (Page p)) ps"
  shows "\<exists>w. run (Pull # evs @ [Settle (Failed err)]) (ApiHalStream_new options h) = Some w
           \<and> pushed (trace w) = concat (map docs ps)
           \<and> last (trace w) = EmitError err
           \<and> length (gets (trace w)) = length ps + 1
           \<and> counter w = int (length (concat (map docs ps)))
           \<and> reading w \<and> inflight w = []
           \<and> (\<forall>evs' w'. run evs' w = Some w' \<longrightarrow> w' = w)"
proof -
  from read_new obtain w0 u where
    w0: "step Pull (ApiHalStream_new options h) = Some w0" "reading w0" "counter w0 = 0"
      "inflight w0 = [u]" "pushed (trace w0) = []" "length (gets (trace w0)) = 1"
    by blast
  from assms(1) w0 have "scrolling (counter w0) ps"
    by simp
  from run_scroll [OF w0(2) w0(4) this assms(2)] obtain w1 u1 where
    w1: "run evs w0 = Some w1" "reading w1"
      "counter w1 = counter w0 + int (length (concat (map docs ps)))"
      "inflight w1 = [u1]"
      "pushed (trace w1) = pushed (trace w0) @ concat (map docs ps)"
      "length (gets (trace w1)) = length (gets (trace w0)) + length ps"
    by blast
  let ?w = "w1\<lparr>inflight := [], trace := trace w1 @ [EmitError err]\<rparr>"
  have run: "run (Pull # evs @ [Settle (Failed err)]) (ApiHalStream_new options h) = Some ?w"
    using w0(1) w1(1) step_failed [OF w1(4)] by (simp add: run_append)
  have "\<forall>evs' w'. run evs' ?w = Some w' \<longrightarrow> w' = ?w"
    using w1(2) by (auto dest!: run_after_stop [rotated 2])
  with run w0 w1 show ?thesis
    by simp
qed

theorem failure_mid_scroll_witness:
  "scrolling 0 [\<lparr>docs = [JStr ''d1'', JStr ''d2''], numFound = 5, nextCursorMark = JStr ''m1''\<rparr>]
   \<and> filter (\<lambda>ev. ev \<noteq> Pull)
        [Pull, Settle (Page \<lparr>docs = [JStr ''d1'', JStr ''d2''], numFound = 5,
                             nextCursorMark = JStr ''m1''\<rparr>)]
      = map (\<lambda>p. Settle (Page p))
          [\<lparr>docs = [JStr ''d1'', JStr ''d2''], numFound = 5, nextCursorMark = JStr ''m1''\<rparr>]
   \<and> (\<exists>w. run (Pull # [Pull, Settle (Page \<lparr>docs = [JStr ''d1'', JStr ''d2''], numFound = 5,
                                           nextCursorMark = JStr ''m1''\<rparr>)]
                  @ [Settle (Failed (Error ''timeout''))])
              (ApiHalStream_new None []) = Some w
          \<and> pushed (trace w) = [JStr ''d1'', JStr ''d2'']
          \<and> last (trace w) = EmitError (Error ''timeout'')
          \<and> length (gets (trace w)) = 2
          \<and> counter w = 2)"
proof -
  let ?p = "\<lparr>docs = [JStr ''d1'', JStr ''d2''], numFound = 5, nextCursorMark = JStr ''m1''\<rparr>"
  have a: "scrolling 0 [?p]"
    by simp
  have b: "filter (\<lambda>ev. ev \<noteq> Pull) [Pull, Settle (Page ?p)] = map (\<lambda>p. Settle (Page p)) [?p]"
    by simp
  from failure_mid_scroll [OF a b, of "Error ''timeout''" None "[]"] a b show ?thesis
    by auto
qed

lemma run_pulls:
  "reading w \<Longrightarrow> run (replicate n Pull @ evs) w = run evs w"
  by (induction n) (simp_all add: step_def read_while_reading)

lemma read_new_trace:
  "\<exists>w b q. step Pull (ApiHalStream_new options h) = Some w
      \<and> reading w \<and> counter w = 0 \<and> inflight w = [(b, q)] \<and> trace w = [Get b q]"
  by (simp add: step_def ApiHalStream_read_def ApiHalStream_new_def getMoreUntilDone_def Let_def
      split: prod.splits)

text \<open>
  C3: with pages of 1000, 1000 and 500 documents that each report \<open>numFound = 2500\<close>, a
  pull and the three responses, with any number of further pulls before each response,
  give exactly this: a request, the documents of the first page, a request, those of the
  second, a request, those of the third, and the end of the data; 2500 documents in all,
  nothing left in flight. The counter is raised by one with every document pushed,
  stands at 1000 after the first page, at 2000 after the second and at 2500 when the
  documents of the third are pushed, and is reset with the end of the data. With
  \<open>numFound = 0\<close> and no document, the first response is answered by the end of the
  data at once: one request in all.
\<close>

theorem drain_2500:
  "(length (docs p1) = 1000 \<and> length (docs p2) = 1000 \<and> length (docs p3) = 500
      \<and> numFound p1 = 2500 \<and> numFound p2 = 2500 \<and> numFound p3 = 2500 \<longrightarrow>
    (\<exists>w1 w2 w b0 q0 b1 q1 b2 q2.
        run (Pull # replicate i Pull @ [Settle (Page p1)]) (ApiHalStream_new options h) = Some w1
        \<and> counter w1 = 1000
        \<and> run (replicate j Pull @ [Settle (Page p2)]) w1 = Some w2
        \<and> counter w2 = 2000
        \<and> counter (push_docs (docs p3) w2) = 2500
        \<and> run (replicate k Pull @ [Settle (Page p3)]) w2 = Some w
        \<and> run (Pull # replicate i Pull @ Settle (Page p1) # replicate j Pull
                 @ Settle (Page p2) # replicate k Pull @ [Settle (Page p3)])
              (ApiHalStream_new options h) = Some w
        \<and> trace w = Get b0 q0 # map Push (docs p1) @ Get b1 q1 # map Push (docs p2)
                      @ Get b2 q2 # map Push (docs p3) @ [PushNull]
        \<and> length (docs p1 @ docs p2 @ docs p3) = 2500
        \<and> inflight w = [] \<and> \<not> reading w \<and> counter w = 0))
   \<and> (docs p0 = [] \<and> numFound p0 = 0 \<longrightarrow>
    (\<exists>w b q. run (Pull # replicate i Pull @ [Settle (Page p0)]) (ApiHalStream_new options h) = Some w
        \<and> trace w = [Get b q, PushNull]
        \<and> inflight w = [] \<and> \<not> reading w \<and> counter w = 0))
   \<and> (\<forall>doc v. counter (push_doc doc v) = counter v + 1
        \<and> trace (push_doc doc v) = trace v @ [Push doc])"
proof (intro conjI impI allI)
  assume a: "length (docs p1) = 1000 \<and> length (docs p2) = 1000 \<and> length (docs p3) = 500
      \<and> numFound p1 = 2500 \<and> numFound p2 = 2500 \<and> numFound p3 = 2500"
  from read_new_trace obtain w0 b0 q0 where
    w0: "step Pull (ApiHalStream_new options h) = Some w0" "reading w0" "counter w0 = 0"
      "inflight w0 = [(b0, q0)]" "trace w0 = [Get b0 q0]"
    by blast
  from a w0 have "counter w0 + int (length (docs p1)) < numFound p1"
    by simp
  from step_next_page [OF w0(4) this] obtain w1 where
    w1: "step (Settle (Page p1)) w0 = Some w1" "reading w1 = reading w0"
      "counter w1 = counter w0 + int (length (docs p1))"
      "inflight w1 = [(urlBase w0, store w1 ! params w0)]"
      "trace w1 = trace w0 @ map Push (docs p1) @ [Get (urlBase w0) (store w1 ! params w0)]"
    by blast
  from a w0 w1 have c1: "counter w1 = 1000"
    by simp
  with a have "counter w1 + int (length (docs p2)) < numFound p2"
    by simp
  from step_next_page [OF w1(4) this] obtain w2 where
    w2: "step (Settle (Page p2)) w1 = Some w2" "reading w2 = reading w1"
      "counter w2 = counter w1 + int (length (docs p2))"
      "inflight w2 = [(urlBase w1, store w2 ! params w1)]"
      "trace w2 = trace w1 @ map Push (docs p2) @ [Get (urlBase w1) (store w2 ! params w1)]"
    by blast
  from a c1 w2 have c2: "counter w2 = 2000"
    by simp
  with a have "\<not> counter w2 + int (length (docs p3)) < numFound p3"
    by simp
  from step_last_page [OF w2(4) this] obtain w where
    w: "step (Settle (Page p3)) w2 = Some w" "\<not> reading w" "counter w = 0" "inflight w = []"
      "trace w = trace w2 @ map Push (docs p3) @ [PushNull]"
    by blast
  have r0: "reading w0" and r1: "reading w1" and r2: "reading w2"
    using w0 w1 w2 by simp_all
  have run1: "run (Pull # replicate i Pull @ [Settle (Page p1)]) (ApiHalStream_new options h)
      = Some w1"
    using w0(1) w1(1) by (simp add: run_pulls [OF r0])
  have run2: "run (replicate j Pull @ [Settle (Page p2)]) w1 = Some w2"
    using w2(1) by (simp add: run_pulls [OF r1])
  have run3: "run (replicate k Pull @ [Settle (Page p3)]) w2 = Some w"
    using w(1) by (simp add: run_pulls [OF r2])
  have whole: "run (Pull # replicate i Pull @ Settle (Page p1) # replicate j Pull
                 @ Settle (Page p2) # replicate k Pull @ [Settle (Page p3)])
              (ApiHalStream_new options h) = Some w"
    using w0(1) w1(1) w2(1) w(1) by (simp add: run_pulls [OF r0] run_pulls [OF r1] run_pulls [OF r2])
  have tr: "trace w = Get b0 q0 # map Push (docs p1)
      @ Get (urlBase w0) (store w1 ! params w0) # map Push (docs p2)
      @ Get (urlBase w1) (store w2 ! params w1) # map Push (docs p3) @ [PushNull]"
    using w(5) w2(5) w1(5) w0(5) by simp
  have len: "length (docs p1 @ docs p2 @ docs p3) = 2500"
    using a by simp
  have c3: "counter (push_docs (docs p3) w2) = 2500"
    using c2 a by simp
  show "\<exists>w1 w2 w b0 q0 b1 q1 b2 q2.
        run (Pull # replicate i Pull @ [Settle (Page p1)]) (ApiHalStream_new options h) = Some w1
        \<and> counter w1 = 1000
        \<and> run (replicate j Pull @ [Settle (Page p2)]) w1 = Some w2
        \<and> counter w2 = 2000
        \<and> counter (push_docs (docs p3) w2) = 2500
        \<and> run (replicate k Pull @ [Settle (Page p3)]) w2 = Some w
        \<and> run (Pull # replicate i Pull @ Settle (Page p1) # replicate j Pull
                 @ Settle (Page p2) # replicate k Pull @ [Settle (Page p3)])
              (ApiHalStream_new options h) = Some w
        \<and> trace w = Get b0 q0 # map Push (docs p1) @ Get b1 q1 # map Push (docs p2)
                      @ Get b2 q2 # map Push (docs p3) @ [PushNull]
        \<and> length (docs p1 @ docs p2 @ docs p3) = 2500
        \<and> inflight w = [] \<and> \<not> reading w \<and> counter w = 0"
    using run1 c1 run2 c2 c3 run3 whole tr len w(2,3,4) by blast
next
  assume z: "docs p0 = [] \<and> numFound p0 = 0"
  from read_new_trace obtain w0 b q where
    w0: "step Pull (ApiHalStream_new options h) = Some w0" "reading w0" "counter w0 = 0"
      "inflight w0 = [(b, q)]" "trace w0 = [Get b q]"
    by blast
  from z w0 have "\<not> counter w0 + int (length (docs p0)) < numFound p0"
    by simp
  from step_last_page [OF w0(4) this] obtain w where
    w: "step (Settle (Page p0)) w0 = Some w" "\<not> reading w" "counter w = 0" "inflight w = []"
      "trace w = trace w0 @ map Push (docs p0) @ [PushNull]"
    by blast
  have "run (Pull # replicate i Pull @ [Settle (Page p0)]) (ApiHalStream_new options h) = Some w"
    using w0(1) w(1) by (simp add: run_pulls [OF w0(2)])
  moreover have "trace w = [Get b q, PushNull]"
    using w(5) w0(5) z by simp
  ultimately show "\<exists>w b q. run (Pull # replicate i Pull @ [Settle (Page p0)])
          (ApiHalStream_new options h) = Some w
        \<and> trace w = [Get b q, PushNull]
        \<and> inflight w = [] \<and> \<not> reading w \<and> counter w = 0"
    using w(2,3,4) by blast
next
  show "counter (push_doc doc v) = counter v + 1" for doc v
    by (simp add: push_doc_def)
  show "trace (push_doc doc v) = trace v @ [Push doc]" for doc v
    by (simp add: push_doc_def)
qed

theorem drain_2500_witness:
  "length (docs \<lparr>docs = replicate 1000 (JStr ''a''), numFound = 2500, nextCursorMark = JStr ''m1''\<rparr>) = 1000
   \<and> length (docs \<lparr>docs = replicate 1000 (JStr ''b''), numFound = 2500, nextCursorMark = JStr ''m2''\<rparr>) = 1000
   \<and> length (docs \<lparr>docs = replicate 500 (JStr ''c''), numFound = 2500, nextCursorMark = JStr ''m3''\<rparr>) = 500
   \<and> (\<exists>w b0 q0 b1 q1 b2 q2.
        run [Pull,
             Settle (Page \<lparr>docs = replicate 1000 (JStr ''a''), numFound = 2500,
                           nextCursorMark = JStr ''m1''\<rparr>),
             Pull,
             Settle (Page \<lparr>docs = replicate 1000 (JStr ''b''), numFound = 2500,
                           nextCursorMark = JStr ''m2''\<rparr>),
             Settle (Page \<lparr>docs = replicate 500 (JStr ''c''), numFound = 2500,
                           nextCursorMark = JStr ''m3''\<rparr>)]
          (ApiHalStream_new None []) = Some w
        \<and> trace w = Get b0 q0 # map Push (replicate 1000 (JStr ''a''))
                      @ Get b1 q1 # map Push (replicate 1000 (JStr ''b''))
                      @ Get b2 q2 # map Push (replicate 500 (JStr ''c'')) @ [PushNull])
   \<and> (\<exists>w b q. run [Pull, Settle (Page \<lparr>docs = [], numFound = 0, nextCursorMark = JStr ''*''\<rparr>)]
            (ApiHalStream_new None []) = Some w
        \<and> trace w = [Get b q, PushNull])"
proof -
  let ?p1 = "\<lparr>docs = replicate 1000 (JStr ''a''), numFound = 2500, nextCursorMark = JStr ''m1''\<rparr>"
  let ?p2 = "\<lparr>docs = replicate 1000 (JStr ''b''), numFound = 2500, nextCursorMark = JStr ''m2''\<rparr>"
  let ?p3 = "\<lparr>docs = replicate 500 (JStr ''c''), numFound = 2500, nextCursorMark = JStr ''m3''\<rparr>"
  let ?p0 = "\<lparr>docs = [], numFound = 0, nextCursorMark = JStr ''*''\<rparr>"
  note t = drain_2500 [of ?p1 ?p2 ?p3 0 None "[]" 1 0 ?p0]
  have a: "length (docs ?p1) = 1000 \<and> length (docs ?p2) = 1000 \<and> length (docs ?p3) = 500
      \<and> numFound ?p1 = 2500 \<and> numFound ?p2 = 2500 \<and> numFound ?p3 = 2500"
    by simp
  have b: "docs ?p0 = [] \<and> numFound ?p0 = 0"
    by simp
  from t a obtain w b0 q0 b1 q1 b2 q2 where
    "run (Pull # replicate 0 Pull @ Settle (Page ?p1) # replicate 1 Pull
           @ Settle (Page ?p2) # replicate 0 Pull @ [Settle (Page ?p3)])
       (ApiHalStream_new None []) = Some w"
    "trace w = Get b0 q0 # map Push (docs ?p1) @ Get b1 q1 # map Push (docs ?p2)
                 @ Get b2 q2 # map Push (docs ?p3) @ [PushNull]"
    by blast
  then have first: "\<exists>w b0 q0 b1 q1 b2 q2.
        run [Pull, Settle (Page ?p1), Pull, Settle (Page ?p2), Settle (Page ?p3)]
          (ApiHalStream_new None []) = Some w
        \<and> trace w = Get b0 q0 # map Push (replicate 1000 (JStr ''a''))
                      @ Get b1 q1 # map Push (replicate 1000 (JStr ''b''))
                      @ Get b2 q2 # map Push (replicate 500 (JStr ''c'')) @ [PushNull]"
    by (intro exI [of _ w] exI [of _ b0] exI [of _ q0] exI [of _ b1] exI [of _ q1]
          exI [of _ b2] exI [of _ q2])
       (simp del: run.simps)
  from t b have second: "\<exists>w b q. run (Pull # replicate 0 Pull @ [Settle (Page ?p0)])
            (ApiHalStream_new None []) = Some w
        \<and> trace w = [Get b q, PushNull]"
    by blast
  then have second': "\<exists>w b q. run [Pull, Settle (Page ?p0)] (ApiHalStream_new None []) = Some w
        \<and> trace w = [Get b q, PushNull]"
    by (simp del: run.simps)
  from a first second' show ?thesis
    by (intro conjI) (simp_all del: run.simps)
qed

text \<open>
  C2, as the code has it: only the first request answers a pull. The \<open>then\<close> handler
  itself sends the next request as soon as it has pushed the documents of a page and the
  counter is still below \<open>numFound\<close>; so after a single pull, the pages \<open>ps\<close> that do
  not complete the scroll lead to one request each and one more, the consumer never
  pulling again, and a pull at that point changes nothing.
\<close>

theorem next_fetch_from_handler:
  "(inflight w = [u] \<and> counter w + int (length (docs p)) < numFound p \<longrightarrow>
      (\<exists>w'. step (Settle (Page p)) w = Some w'
          \<and> trace w' = trace w @ map Push (docs p) @ [Get (urlBase w) (store w' ! params w)]
          \<and> inflight w' = [(urlBase w, store w' ! params w)]))
   \<and> (scrolling 0 ps \<longrightarrow>
      (\<exists>w'. run (Pull # map (\<lambda>p. Settle (Page p)) ps) (ApiHalStream_new options h) = Some w'
          \<and> length (gets (trace w')) = length ps + 1
          \<and> pushed (trace w') = concat (map docs ps)
          \<and> reading w'
          \<and> (\<exists>u'. inflight w' = [u'])
          \<and> step Pull w' = Some w'))"
proof (intro conjI impI)
  assume "inflight w = [u] \<and> counter w + int (length (docs p)) < numFound p"
  then have "inflight w = [u]" and "counter w + int (length (docs p)) < numFound p"
    by simp_all
  from step_next_page [OF this]
  show "\<exists>w'. step (Settle (Page p)) w = Some w'
          \<and> trace w' = trace w @ map Push (docs p) @ [Get (urlBase w) (store w' ! params w)]
          \<and> inflight w' = [(urlBase w, store w' ! params w)]"
    by blast
next
  assume s: "scrolling 0 ps"
  from read_new obtain w0 u0 where
    w0: "step Pull (ApiHalStream_new options h) = Some w0" "reading w0" "counter w0 = 0"
      "inflight w0 = [u0]" "pushed (trace w0) = []" "length (gets (trace w0)) = 1"
    by blast
  from s w0 have "scrolling (counter w0) ps"
    by simp
  from run_scroll [OF w0(2) w0(4) this filter_settles] obtain w1 where
    w1: "run (map (\<lambda>p. Settle (Page p)) ps) w0 = Some w1" "reading w1"
      "\<exists>u'. inflight w1 = [u']"
      "pushed (trace w1) = pushed (trace w0) @ concat (map docs ps)"
      "length (gets (trace w1)) = length (gets (trace w0)) + length ps"
    by blast
  have "run (Pull # map (\<lambda>p. Settle (Page p)) ps) (ApiHalStream_new options h) = Some w1"
    using w0(1) w1(1) by simp
  moreover have "step Pull w1 = Some w1"
    using w1(2) by (simp add: step_def read_while_reading)
  ultimately show "\<exists>w'. run (Pull # map (\<lambda>p. Settle (Page p)) ps) (ApiHalStream_new options h) = Some w'
          \<and> length (gets (trace w')) = length ps + 1
          \<and> pushed (trace w') = concat (map docs ps)
          \<and> reading w'
          \<and> (\<exists>u'. inflight w' = [u'])
          \<and> step Pull w' = Some w'"
    using w0 w1 by auto
qed

theorem next_fetch_from_handler_witness:
  "scrolling 0 [\<lparr>docs = [JStr ''d1''], numFound = 3, nextCursorMark = JStr ''m1''\<rparr>,
                \<lparr>docs = [JStr ''d2''], numFound = 3, nextCursorMark = JStr ''m2''\<rparr>]
   \<and> (\<exists>w'. run [Pull,
                Settle (Page \<lparr>docs = [JStr ''d1''], numFound = 3, nextCursorMark = JStr ''m1''\<rparr>),
                Settle (Page \<lparr>docs = [JStr ''d2''], numFound = 3, nextCursorMark = JStr ''m2''\<rparr>)]
             (ApiHalStream_new None []) = Some w'
         \<and> length (gets (trace w')) = 3
         \<and> pushed (trace w') = [JStr ''d1'', JStr ''d2'']
         \<and> length (inflight w') = 1)"
proof -
  let ?ps = "[\<lparr>docs = [JStr ''d1''], numFound = 3, nextCursorMark = JStr ''m1''\<rparr>,
              \<lparr>docs = [JStr ''d2''], numFound = 3, nextCursorMark = JStr ''m2''\<rparr>]"
  have s: "scrolling 0 ?ps"
    by simp
  from next_fetch_from_handler [THEN conjunct2, rule_format, OF s, of None "[]"] s
  show ?thesis
    by auto
qed

text \<open>
  The claim C2 as stated fails: one pull and one response with one document out of two
  leave two requests sent, the second one right after the document was pushed.
\<close>

theorem fetch_without_pull_counterexample:
  "run [Pull, Settle (Page \<lparr>docs = [JStr ''d1''], numFound = 2, nextCursorMark = JStr ''m1''\<rparr>)]
     (ApiHalStream_new None [])
   = Some \<lparr>reading = True, counter = 1, urlBase = ''http://api.archives-ouvertes.fr/search'',
           params = 0,
           store = [[(''q'', JStr ''*''), (''sort'', JStr ''docid asc''),
                     (''cursorMark'', JStr ''m1''), (''rows'', JNum 1000)]],
           inflight = [(''http://api.archives-ouvertes.fr/search'',
                        [(''q'', JStr ''*''), (''sort'', JStr ''docid asc''),
                         (''cursorMark'', JStr ''m1''), (''rows'', JNum 1000)])],
           trace = [Get ''http://api.archives-ouvertes.fr/search''
                      [(''q'', JStr ''*''), (''sort'', JStr ''docid asc''),
                       (''cursorMark'', JStr ''*''), (''rows'', JNum 1000)],
                    Push (JStr ''d1''),
                    Get ''http://api.archives-ouvertes.fr/search''
                      [(''q'', JStr ''*''), (''sort'', JStr ''docid asc''),
                       (''cursorMark'', JStr ''m1''), (''rows'', JNum 1000)]]\<rparr>"
  by (simp add: step_def ApiHalStream_read_def ApiHalStream_new_def getMoreUntilDone_def
      on_fulfilled_def push_doc_def fresh_def)

section \<open>Properties of objects\<close>

lemma get_set_prop: "get (set_prop ob k v) k' = (if k' = k then v else get ob k')"
  by (induction ob) (auto simp: get_def)

lemma get_delete_prop: "k' \<noteq> k \<Longrightarrow> get (delete_prop ob k) k' = get ob k'"
  by (induction ob) (auto simp: get_def delete_prop_def)

lemma get_set_prop_same [simp]: "get (set_prop ob k v) k = v"
  by (simp add: get_set_prop)

lemma hasOwn_delete_prop: "hasOwn (delete_prop ob k) k' = (k' \<noteq> k \<and> hasOwn ob k')"
  by (auto simp: hasOwn_def delete_prop_def)

lemma keys_set_prop:
  "map fst (set_prop ob k v) = (if k \<in> set (map fst ob) then map fst ob else map fst ob @ [k])"
  by (induction ob k v rule: set_prop.induct) auto

lemma hasOwn_set_prop: "hasOwn (set_prop ob k v) k' = (k' = k \<or> hasOwn ob k')"
  unfolding hasOwn_def keys_set_prop by auto


section \<open>The options of \<open>query\<close>\<close>



lemma query_returns:
  assumes "query search (OptObject a) h = (Inr req, h')"
  obtains q link h2 h3 where
    "query_text search = Inr q"
    "\<not> hasOwn (h ! a) ''hasOwnProperty''"
    "h2 = (if hasOwn (h ! a) ''proxy'' then h[a := delete_prop (h ! a) ''proxy''] else h)"
    "req_options req =
       (if hasOwn (h ! a) ''proxy'' then [(''proxy'', get (h ! a) ''proxy'')] else [])"
    "query_link (h2 ! a) q = Inr link"
    "h3 = (if truthy (get (h2 ! a) ''fields'') then
             h2[a := delete_prop (set_prop (h2 ! a) ''fl'' (get (h2 ! a) ''fields'')) ''fields'']
           else h2)"
    "join_fl a h3 = Inr h'"
    "append_options (h' ! a) link = Inr (req_url req)"
  using assms unfolding query_def Let_def
  by (simp split: sum.splits if_splits) auto

lemma join_fl_frame:
  assumes "join_fl a h = Inr h'"
  shows "length h' = length h"
    and "b \<noteq> a \<Longrightarrow> h' ! b = h ! b"
    and "a < length h \<Longrightarrow> k \<noteq> ''fl'' \<Longrightarrow> get (h' ! a) k = get (h ! a) k"
    and "a < length h \<Longrightarrow> hasOwn (h' ! a) k = hasOwn (h ! a) k \<or> k = ''fl''"
  using assms
  by (auto simp: join_fl_def get_set_prop hasOwn_set_prop split: jsval.splits sum.splits)

lemma join_fl_value:
  assumes "join_fl a h = Inr h'" and "a < length h"
  shows "case get (h ! a) ''fl'' of
           JArr xs \<Rightarrow> \<exists>ss. ToStrings xs = Inr ss \<and> get (h' ! a) ''fl'' = JStr (join '','' ss)
         | v \<Rightarrow> get (h' ! a) ''fl'' = v"
  using assms
  by (auto simp: join_fl_def get_set_prop split: jsval.splits sum.splits)

lemma query_frame:
  assumes "query search (OptObject a) h = (r, h')"
  shows "length h' = length h"
    and "b \<noteq> a \<Longrightarrow> h' ! b = h ! b"
    and "a < length h \<Longrightarrow> k \<notin> {''proxy'', ''fields'', ''fl''} \<Longrightarrow> get (h' ! a) k = get (h ! a) k"
  using assms unfolding query_def Let_def
  by (auto simp: get_set_prop get_delete_prop
      split: sum.splits if_splits dest: join_fl_frame)

lemma findOne_rows:
  assumes "a < length h"
  shows "get (snd (findOne search (OptObject a) h) ! a) ''rows'' = JNum 1"
proof -
  obtain r h' where q: "query search (OptObject a) (h[a := set_prop (h ! a) ''rows'' (JNum 1)]) = (r, h')"
    by (cases "query search (OptObject a) (h[a := set_prop (h ! a) ''rows'' (JNum 1)])")
  from assms have "a < length (h[a := set_prop (h ! a) ''rows'' (JNum 1)])"
    by simp
  from query_frame(3) [OF q this, of "''rows''"] assms
  have "get (h' ! a) ''rows'' = JNum 1"
    by simp
  with q show ?thesis
    by (simp add: findOne_def)
qed





lemma findOne_frame:
  assumes "a < length h"
  shows "length (snd (findOne search (OptObject a) h)) = length h"
    and "b \<noteq> a \<Longrightarrow> snd (findOne search (OptObject a) h) ! b = h ! b"
    and "k \<notin> {''rows'', ''proxy'', ''fields'', ''fl''} \<Longrightarrow>
           get (snd (findOne search (OptObject a) h) ! a) k = get (h ! a) k"
proof -
  let ?h2 = "h[a := set_prop (h ! a) ''rows'' (JNum 1)]"
  obtain r h' where q: "query search (OptObject a) ?h2 = (r, h')"
    by (cases "query search (OptObject a) ?h2")
  then have f: "snd (findOne search (OptObject a) h) = h'"
    by (simp add: findOne_def)
  from assms have len: "a < length ?h2"
    by simp
  show "length (snd (findOne search (OptObject a) h)) = length h"
    using query_frame(1) [OF q] f by simp
  show "snd (findOne search (OptObject a) h) ! b = h ! b" if "b \<noteq> a"
    using query_frame(2) [OF q that] that f by simp
  show "get (snd (findOne search (OptObject a) h) ! a) k = get (h ! a) k"
    if "k \<notin> {''rows'', ''proxy'', ''fields'', ''fl''}"
    using query_frame(3) [OF q len, of k] that f assms by (simp add: get_set_prop)
qed

lemma query_effect:
  assumes q: "query search (OptObject a) h = (Inr req, h')" and a: "a < length h"
  shows "\<not> hasOwn (h' ! a) ''proxy''"
    and "req_options req =
           (if hasOwn (h ! a) ''proxy'' then [(''proxy'', get (h ! a) ''proxy'')] else [])"
    and "truthy (get (h ! a) ''fields'') \<Longrightarrow> \<not> hasOwn (h' ! a) ''fields''"
    and "case (if truthy (get (h ! a) ''fields'') then get (h ! a) ''fields''
               else get (h ! a) ''fl'') of
           JArr xs \<Rightarrow> \<exists>ss. ToStrings xs = Inr ss \<and> get (h' ! a) ''fl'' = JStr (join '','' ss)
         | v \<Rightarrow> get (h' ! a) ''fl'' = v"
proof -
  from q obtain h2 h3 where
    h2: "h2 = (if hasOwn (h ! a) ''proxy'' then h[a := delete_prop (h ! a) ''proxy''] else h)"
    and ro: "req_options req =
       (if hasOwn (h ! a) ''proxy'' then [(''proxy'', get (h ! a) ''proxy'')] else [])"
    and h3: "h3 = (if truthy (get (h2 ! a) ''fields'') then
             h2[a := delete_prop (set_prop (h2 ! a) ''fl'' (get (h2 ! a) ''fields'')) ''fields'']
           else h2)"
    and j: "join_fl a h3 = Inr h'"
    by (rule query_returns)
  from a h2 have a2: "a < length h2" by simp
  with h3 have a3: "a < length h3" by simp
  from a h2 have p2: "\<not> hasOwn (h2 ! a) ''proxy''"
    by (simp add: hasOwn_delete_prop)
  from a h2 have g2: "get (h2 ! a) k = get (h ! a) k" if "k \<noteq> ''proxy''" for k
    using that by (simp add: get_delete_prop)
  from a2 h3 p2 have p3: "\<not> hasOwn (h3 ! a) ''proxy''"
    by (simp add: hasOwn_delete_prop hasOwn_set_prop)
  from join_fl_frame(4) [OF j a3, of "''proxy''"] p3
  show "\<not> hasOwn (h' ! a) ''proxy''"
    by simp
  show "req_options req =
           (if hasOwn (h ! a) ''proxy'' then [(''proxy'', get (h ! a) ''proxy'')] else [])"
    by (rule ro)
  show "\<not> hasOwn (h' ! a) ''fields''" if "truthy (get (h ! a) ''fields'')"
  proof -
    from that g2 h3 a2 have "\<not> hasOwn (h3 ! a) ''fields''"
      by (simp add: hasOwn_delete_prop)
    with join_fl_frame(4) [OF j a3, of "''fields''"] show ?thesis
      by simp
  qed
  have fl3: "get (h3 ! a) ''fl'' =
      (if truthy (get (h ! a) ''fields'') then get (h ! a) ''fields'' else get (h ! a) ''fl'')"
    using h3 a2 g2 by (simp add: get_delete_prop get_set_prop)
  from join_fl_value [OF j a3] fl3
  show "case (if truthy (get (h ! a) ''fields'') then get (h ! a) ''fields''
               else get (h ! a) ''fl'') of
           JArr xs \<Rightarrow> \<exists>ss. ToStrings xs = Inr ss \<and> get (h' ! a) ''fl'' = JStr (join '','' ss)
         | v \<Rightarrow> get (h' ! a) ''fl'' = v"
    by simp
qed

lemma ApiHalStream_new_object:
  assumes "a < length h"
  shows "params (ApiHalStream_new (Some a) h) = a"
    and "get (store (ApiHalStream_new (Some a) h) ! a) k =
           (if k = ''rows'' then JNum 1000 else if k = ''cursorMark'' then JStr ''*''
            else if k = ''sort'' then JStr ''docid asc'' else get (h ! a) k)"
    and "length (store (ApiHalStream_new (Some a) h)) = length h"
    and "b \<noteq> a \<Longrightarrow> store (ApiHalStream_new (Some a) h) ! b = h ! b"
  using assms by (simp_all add: ApiHalStream_new_def Let_def get_set_prop)

section \<open>\<open>findOne\<close>: exactly one document\<close>



section \<open>The caller's options object\<close>

text \<open>
  C10, as the code has it: the operations write to the caller's object, no other object
  of the store changes. \<open>find\<close> hands the object to \<open>query\<close> as it is, \<open>findOne\<close>
  sets \<open>rows\<close> to 1 first. \<open>query\<close>, when it returns a
  request, has removed \<open>proxy\<close> (now an option of the request); when the value of
  \<open>fields\<close> is truthy it has removed \<open>fields\<close> and stored the value under \<open>fl\<close>; an
  array under \<open>fl\<close> is replaced by its elements joined with commas; every other entry
  is as it was. The constructor keeps the object as \<open>params\<close> and overwrites \<open>sort\<close>,
  \<open>cursorMark\<close> and \<open>rows\<close>.
\<close>

theorem options_mutated_in_place:
  "find search (OptObject a) h = query search (OptObject a) h
   \<and> (a < length h \<longrightarrow>
      get (snd (findOne search (OptObject a) h) ! a) ''rows'' = JNum 1
      \<and> length (snd (findOne search (OptObject a) h)) = length h
      \<and> (\<forall>b. b \<noteq> a \<longrightarrow> snd (findOne search (OptObject a) h) ! b = h ! b))
   \<and> (a < length h \<and> query search (OptObject a) h = (Inr req, h') \<longrightarrow>
      \<not> hasOwn (h' ! a) ''proxy''
      \<and> req_options req =
          (if hasOwn (h ! a) ''proxy'' then [(''proxy'', get (h ! a) ''proxy'')] else [])
      \<and> (truthy (get (h ! a) ''fields'') \<longrightarrow> \<not> hasOwn (h' ! a) ''fields'')
      \<and> (case (if truthy (get (h ! a) ''fields'') then get (h ! a) ''fields''
                else get (h ! a) ''fl'') of
            JArr xs \<Rightarrow> \<exists>ss. ToStrings xs = Inr ss \<and> get (h' ! a) ''fl'' = JStr (join '','' ss)
          | v \<Rightarrow> get (h' ! a) ''fl'' = v)
      \<and> (\<forall>k. k \<notin> {''proxy'', ''fields'', ''fl''} \<longrightarrow> get (h' ! a) k = get (h ! a) k)
      \<and> length h' = length h
      \<and> (\<forall>b. b \<noteq> a \<longrightarrow> h' ! b = h ! b))
   \<and> (a < length h \<longrightarrow>
      params (ApiHalStream_new (Some a) h) = a
      \<and> get (store (ApiHalStream_new (Some a) h) ! a) ''sort'' = JStr ''docid asc''
      \<and> get (store (ApiHalStream_new (Some a) h) ! a) ''cursorMark'' = JStr ''*''
      \<and> get (store (ApiHalStream_new (Some a) h) ! a) ''rows'' = JNum 1000
      \<and> (\<forall>k. k \<notin> {''sort'', ''cursorMark'', ''rows''} \<longrightarrow>
            get (store (ApiHalStream_new (Some a) h) ! a) k = get (h ! a) k)
      \<and> length (store (ApiHalStream_new (Some a) h)) = length h
      \<and> (\<forall>b. b \<noteq> a \<longrightarrow> store (ApiHalStream_new (Some a) h) ! b = h ! b))"
proof (intro conjI impI allI)
  show "find search (OptObject a) h = query search (OptObject a) h"
    by (simp add: find_def)
next
  assume a: "a < length h"
  show "get (snd (findOne search (OptObject a) h) ! a) ''rows'' = JNum 1"
    using a by (rule findOne_rows)
  show "length (snd (findOne search (OptObject a) h)) = length h"
    using a by (rule findOne_frame)
  show "snd (findOne search (OptObject a) h) ! b = h ! b" if "b \<noteq> a" for b
    using a that by (rule findOne_frame)
  show "params (ApiHalStream_new (Some a) h) = a"
    using a by (rule ApiHalStream_new_object)
  show "get (store (ApiHalStream_new (Some a) h) ! a) ''sort'' = JStr ''docid asc''"
    using a by (simp add: ApiHalStream_new_object)
  show "get (store (ApiHalStream_new (Some a) h) ! a) ''cursorMark'' = JStr ''*''"
    using a by (simp add: ApiHalStream_new_object)
  show "get (store (ApiHalStream_new (Some a) h) ! a) ''rows'' = JNum 1000"
    using a by (simp add: ApiHalStream_new_object)
  show "get (store (ApiHalStream_new (Some a) h) ! a) k = get (h ! a) k"
    if "k \<notin> {''sort'', ''cursorMark'', ''rows''}" for k
    using a that by (simp add: ApiHalStream_new_object)
  show "length (store (ApiHalStream_new (Some a) h)) = length h"
    using a by (rule ApiHalStream_new_object)
  show "store (ApiHalStream_new (Some a) h) ! b = h ! b" if "b \<noteq> a" for b
    using a that by (rule ApiHalStream_new_object)
next
  assume "a < length h \<and> query search (OptObject a) h = (Inr req, h')"
  then have a: "a < length h" and q: "query search (OptObject a) h = (Inr req, h')"
    by simp_all
  show "\<not> hasOwn (h' ! a) ''proxy''"
    using q a by (rule query_effect)
  show "req_options req =
          (if hasOwn (h ! a) ''proxy'' then [(''proxy'', get (h ! a) ''proxy'')] else [])"
    using q a by (rule query_effect)
  show "\<not> hasOwn (h' ! a) ''fields''" if "truthy (get (h ! a) ''fields'')"
    using q a that by (rule query_effect)
  show "case (if truthy (get (h ! a) ''fields'') then get (h ! a) ''fields''
                else get (h ! a) ''fl'') of
            JArr xs \<Rightarrow> \<exists>ss. ToStrings xs = Inr ss \<and> get (h' ! a) ''fl'' = JStr (join '','' ss)
          | v \<Rightarrow> get (h' ! a) ''fl'' = v"
    using q a by (rule query_effect)
  show "get (h' ! a) k = get (h ! a) k" if "k \<notin> {''proxy'', ''fields'', ''fl''}" for k
    using q a that by (rule query_frame)
  show "length h' = length h"
    using q by (rule query_frame)
  show "h' ! b = h ! b" if "b \<noteq> a" for b
    using q that by (rule query_frame)
qed

theorem options_mutated_in_place_witness:
  "(0::nat) < length [[(''proxy'', JStr ''p''), (''fields'', JArr [JStr ''a'', JStr ''b''])]]
   \<and> query (JObj []) (OptObject 0)
        [[(''proxy'', JStr ''p''), (''fields'', JArr [JStr ''a'', JStr ''b''])]]
      = (Inr \<lparr>req_url = ''http://api.archives-ouvertes.fr/search/?wt=json&q=*%3A*&fl=a,b'',
              req_options = [(''proxy'', JStr ''p'')]\<rparr>,
         [[(''fl'', JStr ''a,b'')]])
   \<and> \<not> hasOwn ([[(''fl'', JStr ''a,b'')]] ! 0) ''proxy''
   \<and> \<not> hasOwn ([[(''fl'', JStr ''a,b'')]] ! 0) ''fields''
   \<and> get (snd (findOne (JObj []) (OptObject 0)
              [[(''proxy'', JStr ''p''), (''fields'', JArr [JStr ''a'', JStr ''b''])]]) ! 0)
        ''rows'' = JNum 1
   \<and> get (store (ApiHalStream_new (Some 0)
              [[(''proxy'', JStr ''p''), (''fields'', JArr [JStr ''a'', JStr ''b''])]]) ! 0)
        ''rows'' = JNum 1000"
proof -
  let ?h = "[[(''proxy'', JStr ''p''), (''fields'', JArr [JStr ''a'', JStr ''b''])]]"
  let ?req = "\<lparr>req_url = ''http://api.archives-ouvertes.fr/search/?wt=json&q=*%3A*&fl=a,b'',
               req_options = [(''proxy'', JStr ''p'')]\<rparr>"
  let ?h' = "[[(''fl'', JStr ''a,b'')]]"
  have a: "(0::nat) < length ?h"
    by simp
  have q: "query (JObj []) (OptObject 0) ?h = (Inr ?req, ?h')"
    by (simp add: query_def query_text_def assemble_def hasOwn_def query_link_def get_def
        join_fl_def delete_prop_def encodeURIComponent_wildcard)
  have t: "truthy (get (?h ! 0) ''fields'')"
    by (simp add: get_def)
  note th = options_mutated_in_place [of "JObj []" 0 ?h ?req ?h']
  from th a q t have "\<not> hasOwn (?h' ! 0) ''proxy''" and "\<not> hasOwn (?h' ! 0) ''fields''"
    by blast+
  moreover from th a
  have "get (snd (findOne (JObj []) (OptObject 0) ?h) ! 0) ''rows'' = JNum 1"
    and "get (store (ApiHalStream_new (Some 0) ?h) ! 0) ''rows'' = JNum 1000"
    by blast+
  ultimately show ?thesis
    using a q by blast
qed

text \<open>
  The claim C10 as stated fails for a \<open>fields\<close> entry whose value is falsy: the guard of
  line 142 skips it, so the empty string stays in the object and is sent as \<open>&fields=\<close>.
\<close>

theorem falsy_fields_stay_counterexample:
  "query (JObj []) (OptObject 0) [[(''fields'', JStr [])]] =
     (Inr \<lparr>req_url = ''http://api.archives-ouvertes.fr/search/?wt=json&q=*%3A*&fields='',
           req_options = []\<rparr>,
      [[(''fields'', JStr [])]])"
  by (simp add: query_def query_text_def assemble_def hasOwn_def query_link_def get_def
      join_fl_def encodeURIComponent_wildcard)

end
